theory Spec2Isabelle
  imports Main "HOL-Library.Multiset"
begin

section \<open>Data model of \<^verbatim>\<open>search.py\<close>\<close>

text \<open>
  A Python \<^verbatim>\<open>str\<close> is a sequence of code points; a \<^verbatim>\<open>bytes\<close> object or a memory-mapped
  file is a sequence of bytes (\<^typ>\<open>char\<close> is HOL's 8-bit character). Paths and exception
  messages are only carried around, never inspected, and are kept as \<^typ>\<open>string\<close>.
\<close>

type_synonym pystr = "nat list"
type_synonym bytes = "char list"

text \<open>\<^verbatim>\<open>self.stats\<close>: a dict with four fixed integer entries.\<close>

record stats =
  files_processed :: int
  matches_found :: int
  total_size :: int
  errors :: int

text \<open>
  The fields of \<^verbatim>\<open>TextSearchEngine\<close> that the search reads or writes
  (\<^verbatim>\<open>cpu_info\<close> is only printed).
\<close>

record engine =
  stats :: stats
  query :: "pystr option"

text \<open>The dict \<^verbatim>\<open>{'path': ..., 'size': ...}\<close> built by \<^verbatim>\<open>get_folder_stats\<close>.\<close>

record file_info =
  fi_path :: string
  fi_size :: int

text \<open>The dict \<^verbatim>\<open>{'file': ..., 'context': ..., 'position': ...}\<close> built by \<^verbatim>\<open>search_file\<close>.\<close>

record match_rec =
  m_file :: string
  m_context :: pystr
  m_position :: nat

text \<open>
  What \<^verbatim>\<open>open\<close> followed by \<^verbatim>\<open>mmap.mmap\<close> gives for a path: an exception with its
  message, or the bytes of the file. The files that the scan can see are listed by path; a
  path that is not listed has vanished since the enumeration.
\<close>

datatype read_result = Raises string | Content bytes

type_synonym filesystem = "(string \<times> read_result) list"

definition open_mmap :: "filesystem \<Rightarrow> string \<Rightarrow> read_result" where
  "open_mmap fs path =
     (case map_of fs path of
        None \<Rightarrow> Raises ''No such file or directory''
      | Some r \<Rightarrow> r)"

section \<open>The runtime's primitives used by \<^verbatim>\<open>search_file\<close>\<close>

subsection \<open>\<^verbatim>\<open>str.encode('utf-8')\<close>\<close>

text \<open>
  One code point to its UTF-8 bytes. A surrogate (U+D800 to U+DFFF) makes \<^verbatim>\<open>encode\<close> raise
  \<^verbatim>\<open>UnicodeEncodeError\<close>; a \<^verbatim>\<open>str\<close> holds no code point above U+10FFFF.
\<close>

definition utf8_encode_cp :: "nat \<Rightarrow> bytes option" where
  "utf8_encode_cp cp =
     (if cp < 0x80 then Some [char_of cp]
      else if cp < 0x800 then
        Some [char_of (0xC0 + cp div 0x40), char_of (0x80 + cp mod 0x40)]
      else if 0xD800 \<le> cp \<and> cp \<le> 0xDFFF then None
      else if cp < 0x10000 then
        Some [char_of (0xE0 + cp div 0x1000), char_of (0x80 + cp div 0x40 mod 0x40),
              char_of (0x80 + cp mod 0x40)]
      else if cp < 0x110000 then
        Some [char_of (0xF0 + cp div 0x40000), char_of (0x80 + cp div 0x1000 mod 0x40),
              char_of (0x80 + cp div 0x40 mod 0x40), char_of (0x80 + cp mod 0x40)]
      else None)"

fun utf8_encode :: "pystr \<Rightarrow> bytes option" where
  "utf8_encode [] = Some []"
| "utf8_encode (cp # s) =
     (case utf8_encode_cp cp of
        None \<Rightarrow> None
      | Some bs \<Rightarrow> (case utf8_encode s of None \<Rightarrow> None | Some r \<Rightarrow> Some (bs @ r)))"

subsection \<open>\<^verbatim>\<open>bytes.decode('utf-8', errors='replace')\<close>\<close>

definition byte_in :: "char \<Rightarrow> nat \<Rightarrow> nat \<Rightarrow> bool" where
  "byte_in b lo hi = (lo \<le> of_char b \<and> of_char b \<le> hi)"

text \<open>The six payload bits of a continuation byte.\<close>

definition low6 :: "char \<Rightarrow> nat" where
  "low6 b = of_char b mod 0x40"

text \<open>
  The decoder never raises: every ill-formed sequence (a stray or impossible lead byte, a
  lead byte followed by a byte outside the range its lead allows, a sequence cut off by the
  end of the data) becomes one U+FFFD, and decoding resumes after the bytes that were
  accepted so far.
\<close>

fun utf8_decode :: "bytes \<Rightarrow> pystr" where
  "utf8_decode [] = []"
| "utf8_decode (b # bs) =
     (let c = (of_char b :: nat) in
      if c < 0x80 then c # utf8_decode bs
      else if c < 0xC2 then 0xFFFD # utf8_decode bs
      else if c < 0xE0 then
        (case bs of
           [] \<Rightarrow> [0xFFFD]
         | b2 # r2 \<Rightarrow>
             if byte_in b2 0x80 0xBF
             then ((c - 0xC0) * 0x40 + low6 b2) # utf8_decode r2
             else 0xFFFD # utf8_decode bs)
      else if c < 0xF0 then
        (case bs of
           [] \<Rightarrow> [0xFFFD]
         | b2 # r2 \<Rightarrow>
             if \<not> byte_in b2 (if c = 0xE0 then 0xA0 else 0x80) (if c = 0xED then 0x9F else 0xBF)
             then 0xFFFD # utf8_decode bs
             else
               (case r2 of
                  [] \<Rightarrow> [0xFFFD]
                | b3 # r3 \<Rightarrow>
                    if byte_in b3 0x80 0xBF
                    then ((c - 0xE0) * 0x1000 + low6 b2 * 0x40 + low6 b3) # utf8_decode r3
                    else 0xFFFD # utf8_decode r2))
      else if c < 0xF5 then
        (case bs of
           [] \<Rightarrow> [0xFFFD]
         | b2 # r2 \<Rightarrow>
             if \<not> byte_in b2 (if c = 0xF0 then 0x90 else 0x80) (if c = 0xF4 then 0x8F else 0xBF)
             then 0xFFFD # utf8_decode bs
             else
               (case r2 of
                  [] \<Rightarrow> [0xFFFD]
                | b3 # r3 \<Rightarrow>
                    if \<not> byte_in b3 0x80 0xBF
                    then 0xFFFD # utf8_decode r2
                    else
                      (case r3 of
                         [] \<Rightarrow> [0xFFFD]
                       | b4 # r4 \<Rightarrow>
                           if byte_in b4 0x80 0xBF
                           then ((c - 0xF0) * 0x40000 + low6 b2 * 0x1000 + low6 b3 * 0x40
                                  + low6 b4) # utf8_decode r4
                           else 0xFFFD # utf8_decode r3)))
      else 0xFFFD # utf8_decode bs)"

subsection \<open>\<^verbatim>\<open>str.strip()\<close>\<close>

text \<open>The code points for which \<^verbatim>\<open>str.isspace\<close> holds.\<close>

definition is_space :: "nat \<Rightarrow> bool" where
  "is_space c =
     ((0x09 \<le> c \<and> c \<le> 0x0D) \<or> (0x1C \<le> c \<and> c \<le> 0x20) \<or> c = 0x85 \<or> c = 0xA0
      \<or> c = 0x1680 \<or> (0x2000 \<le> c \<and> c \<le> 0x200A) \<or> c = 0x2028 \<or> c = 0x2029
      \<or> c = 0x202F \<or> c = 0x205F \<or> c = 0x3000)"

definition strip :: "pystr \<Rightarrow> pystr" where
  "strip s = rev (dropWhile is_space (rev (dropWhile is_space s)))"

subsection \<open>Slicing \<^verbatim>\<open>mm[lo:hi]\<close>\<close>

text \<open>
  Python's slice: a negative bound counts from the end, and both bounds are then clamped
  into the sequence, so a slice never reads out of range.
\<close>

definition py_slice :: "'a list \<Rightarrow> int \<Rightarrow> int \<Rightarrow> 'a list" where
  "py_slice xs lo hi =
     (let n = int (length xs);
          l = (if lo < 0 then max 0 (lo + n) else min lo n);
          h = (if hi < 0 then max 0 (hi + n) else min hi n)
      in drop (nat l) (take (nat h) xs))"

subsection \<open>\<^verbatim>\<open>re.finditer(re.escape(q).encode('utf-8'), mm)\<close>\<close>

text \<open>
  \<^verbatim>\<open>re.escape\<close> puts a backslash before every character that the pattern language
  gives a meaning to, so the compiled pattern matches the bytes of the query and nothing
  else. \<^verbatim>\<open>finditer\<close> then reports the start of each match from left to right: after a match
  the search resumes at its end, otherwise one byte further. An empty pattern matches at
  every position, the end of the data included.
\<close>

function finditer :: "bytes \<Rightarrow> bytes \<Rightarrow> nat \<Rightarrow> nat list" where
  "finditer pat mm pos =
     (if pat = [] then [pos ..< Suc (length mm)]
      else if length mm < pos + length pat then []
      else if take (length pat) (drop pos mm) = pat
        then pos # finditer pat mm (pos + length pat)
      else finditer pat mm (Suc pos))"
  by pat_completeness auto
termination
  by (relation "measure (\<lambda>(pat, mm, pos). Suc (length mm) - pos)")
    (auto simp: neq_Nil_conv)

declare finditer.simps [simp del]

section \<open>\<^verbatim>\<open>TextSearchEngine.search_file\<close>\<close>

text \<open>
  The context of the match at \<open>[s, e)\<close>:
  \<^verbatim>\<open>mm[max(0, match.start()-50):match.end()+50].decode('utf-8', errors='replace')\<close>,
  stripped when the record is built.
\<close>

definition match_context :: "bytes \<Rightarrow> nat \<Rightarrow> nat \<Rightarrow> pystr" where
  "match_context mm s e =
     strip (utf8_decode (py_slice mm (max 0 (int s - 50)) (int e + 50)))"

text \<open>
  The body of the \<^verbatim>\<open>try\<close>: \<open>Inl\<close> is the message of the exception that left it.
  \<^verbatim>\<open>mmap\<close> refuses a file of length 0; \<^verbatim>\<open>re.escape\<close> refuses \<^verbatim>\<open>None\<close> (the query before
  any run); \<^verbatim>\<open>encode\<close> refuses a surrogate. Nothing raises once the loop has started.
\<close>

definition try_search :: "engine \<Rightarrow> filesystem \<Rightarrow> file_info \<Rightarrow> string + match_rec list" where
  "try_search self fs fi =
     (case open_mmap fs (fi_path fi) of
        Raises msg \<Rightarrow> Inl msg
      | Content mm \<Rightarrow>
          if mm = [] then Inl ''cannot mmap an empty file''
          else
            (case query self of
               None \<Rightarrow> Inl ''decoding to str: need a bytes-like object, NoneType found''
             | Some q \<Rightarrow>
                 (case utf8_encode q of
                    None \<Rightarrow> Inl ''surrogates not allowed''
                  | Some pat \<Rightarrow>
                      Inr (map (\<lambda>s. \<lparr>m_file = fi_path fi,
                                      m_context = match_context mm s (s + length pat),
                                      m_position = s\<rparr>)
                               (finditer pat mm 0)))))"

text \<open>
  \<^verbatim>\<open>search_file\<close> returns the triple \<^verbatim>\<open>(path, matches, error)\<close>; the \<^verbatim>\<open>except\<close> branch
  adds one to \<^verbatim>\<open>self.stats['errors']\<close> before it returns, so the engine is threaded through.
\<close>

definition search_file :: "engine \<Rightarrow> filesystem \<Rightarrow> file_info
    \<Rightarrow> engine \<times> (string \<times> match_rec list \<times> string)" where
  "search_file self fs fi =
     (case try_search self fs fi of
        Inl e \<Rightarrow>
          (self\<lparr>stats := (stats self)\<lparr>errors := errors (stats self) + 1\<rparr>\<rparr>,
           (fi_path fi, [], e))
      | Inr matches \<Rightarrow> (self, (fi_path fi, matches, [])))"

section \<open>\<^verbatim>\<open>TextSearchEngine.save_results\<close>\<close>

text \<open>
  The character class of \<^verbatim>\<open>re.sub(r'[\\/*?:"<>|]', '_', self.query)\<close>: backslash, slash,
  asterisk, question mark, colon, double quote, less-than, greater-than and bar.
\<close>

definition unsafe_chars :: "nat list" where
  "unsafe_chars = [0x5C, 0x2F, 0x2A, 0x3F, 0x3A, 0x22, 0x3C, 0x3E, 0x7C]"

definition sub_char :: "nat \<Rightarrow> nat" where
  "sub_char c = (if c \<in> set unsafe_chars then 0x5F else c)"

text \<open>\<^verbatim>\<open>safe_query = re.sub(...)[:50]\<close>: the slice counts code points.\<close>

definition safe_query :: "pystr \<Rightarrow> pystr" where
  "safe_query q = take 50 (map sub_char q)"

text \<open>The file name \<^verbatim>\<open>f"results_{safe_query}.txt"\<close>, joined to \<^verbatim>\<open>Config.RESULTS_DIR\<close>.\<close>

definition result_file :: "pystr \<Rightarrow> pystr" where
  "result_file q = map of_char ''results_'' @ safe_query q @ map of_char ''.txt''"

text \<open>
  What the \<^verbatim>\<open>f.write\<close> calls put into the file, line by line: the query, the number of
  matches, then file, position and context of each match. The wording and the rulers
  between the entries are left out.
\<close>

datatype report_line =
  Header pystr
| Total int
| Entry string nat pystr

definition report :: "pystr \<Rightarrow> match_rec list \<Rightarrow> report_line list" where
  "report q matches =
     Header q # Total (int (length matches)) #
     map (\<lambda>m. Entry (m_file m) (m_position m) (m_context m)) matches"

text \<open>
  The results directory maps a file name to the content last written under it.
  \<open>refused\<close> holds the names for which \<^verbatim>\<open>open(result_file, 'w', encoding='utf-8')\<close>
  raises; the \<^verbatim>\<open>except\<close> branch then prints the error and nothing is written.
  \<^verbatim>\<open>ensure_write_permission\<close> changes the mode of an existing file, not its content.
  With no query set the \<^verbatim>\<open>re.sub\<close> raises before the \<^verbatim>\<open>try\<close>; \<^verbatim>\<open>run_search\<close> never calls
  \<^verbatim>\<open>save_results\<close> in that state, and the model leaves the directory as it is.
\<close>

type_synonym results_dir = "pystr \<rightharpoonup> report_line list"

definition save_results :: "engine \<Rightarrow> pystr set \<Rightarrow> results_dir \<Rightarrow> match_rec list
    \<Rightarrow> results_dir" where
  "save_results self refused rdir matches =
     (if matches = [] then rdir
      else
        (case query self of
           None \<Rightarrow> rdir
         | Some q \<Rightarrow>
             if result_file q \<in> refused then rdir
             else rdir(result_file q \<mapsto> report q matches)))"

section \<open>\<^verbatim>\<open>TextSearchEngine.get_folder_stats\<close>\<close>

text \<open>
  One file name produced by \<^verbatim>\<open>os.walk\<close>: the name, \<^verbatim>\<open>os.path.join(root, file)\<close>, and what
  \<^verbatim>\<open>os.path.getsize\<close> does on that path (an exception with its message, or the size).
\<close>

record dir_entry =
  de_name :: pystr
  de_path :: string
  de_getsize :: "string + int"

text \<open>
  \<^verbatim>\<open>file.lower().endswith('.txt')\<close>: only \<^verbatim>\<open>T\<close> and \<^verbatim>\<open>X\<close> are lowered to \<^verbatim>\<open>t\<close> and \<^verbatim>\<open>x\<close>,
  so the test looks at the last four code points.
\<close>

definition lower_ascii :: "nat \<Rightarrow> nat" where
  "lower_ascii c = (if 0x41 \<le> c \<and> c \<le> 0x5A then c + 0x20 else c)"

definition is_txt :: "pystr \<Rightarrow> bool" where
  "is_txt name =
     (4 \<le> length name \<and>
      map lower_ascii (drop (length name - 4) name) = map of_char ''.txt'')"

fun walk_files :: "dir_entry list \<Rightarrow> file_info list \<Rightarrow> int \<Rightarrow> file_info list \<times> int" where
  "walk_files [] file_list acc_size = (file_list, acc_size)"
| "walk_files (d # ds) file_list acc_size =
     (if is_txt (de_name d) then
        (case de_getsize d of
           Inl e \<Rightarrow> walk_files ds file_list acc_size
         | Inr sz \<Rightarrow>
             walk_files ds (file_list @ [\<lparr>fi_path = de_path d, fi_size = sz\<rparr>]) (acc_size + sz))
      else walk_files ds file_list acc_size)"

definition get_folder_stats :: "engine \<Rightarrow> dir_entry list \<Rightarrow> engine \<times> file_info list" where
  "get_folder_stats self walk =
     (case walk_files walk [] 0 of
        (file_list, acc_size) \<Rightarrow>
          (self\<lparr>stats := (stats self)\<lparr>total_size := acc_size\<rparr>\<rparr>, file_list))"

section \<open>\<^verbatim>\<open>TextSearchEngine.run_search\<close>\<close>

text \<open>
  \<^verbatim>\<open>as_completed(futures)\<close> yields every future once, in the order the workers finish.
  The order is not in the program's hands: the schedule \<open>ks\<close> picks, at each step, which of
  the futures still running finishes next (with no pick left, the first one does).
\<close>

function as_completed :: "nat list \<Rightarrow> 'a list \<Rightarrow> 'a list" where
  "as_completed ks [] = []"
| "as_completed [] (x # xs) = x # as_completed [] xs"
| "as_completed (k # ks) (x # xs) =
     (let i = k mod length (x # xs)
      in (x # xs) ! i # as_completed ks (take i (x # xs) @ drop (Suc i) (x # xs)))"
  by pat_completeness auto
termination
  by (relation "measure (\<lambda>(ks, xs). length xs)") auto

text \<open>
  The body of the \<^verbatim>\<open>for future in as_completed(futures)\<close> loop, lines 158 to 166, on the
  triple returned by \<^verbatim>\<open>future.result()\<close>. The warning it prints for a non-empty \<^verbatim>\<open>error\<close>
  changes nothing.
\<close>

definition loop_body :: "engine \<times> match_rec list \<Rightarrow> string \<times> match_rec list \<times> string
    \<Rightarrow> engine \<times> match_rec list" where
  "loop_body st outcome =
     (case (st, outcome) of
        ((self, all_matches), (path, matches, error)) \<Rightarrow>
          (let self1 = self\<lparr>stats := (stats self)
                 \<lparr>files_processed := files_processed (stats self) + 1\<rparr>\<rparr>
           in if matches \<noteq> []
              then (self1\<lparr>stats := (stats self1)
                      \<lparr>matches_found := matches_found (stats self1) + int (length matches)\<rparr>\<rparr>,
                    all_matches @ matches)
              else (self1, all_matches)))"

text \<open>
  A worker's call of \<^verbatim>\<open>search_file\<close> touches the engine only by the increment of
  \<^verbatim>\<open>errors\<close>, and the loop never reads that counter, so a run of the pool is the sequence of
  its completions: the call's effect, then the loop body on its result.
\<close>

fun run_futures :: "filesystem \<Rightarrow> file_info list \<Rightarrow> engine \<times> match_rec list
    \<Rightarrow> engine \<times> match_rec list" where
  "run_futures fs [] st = st"
| "run_futures fs (f # rest) st =
     (case search_file (fst st) fs f of
        (self1, outcome) \<Rightarrow> run_futures fs rest (loop_body (self1, snd st) outcome))"

text \<open>What one call of \<^verbatim>\<open>run_search\<close> takes from the outside world.\<close>

record run_io =
  io_walk :: "dir_entry list"
  io_fs :: filesystem
  io_query :: pystr
  io_sched :: "nat list"
  io_refused :: "pystr set"

text \<open>
  What it leaves behind: the engine, the results directory, the paths handed to
  \<^verbatim>\<open>executor.submit(self.search_file, file)\<close>, and the value of the local \<^verbatim>\<open>all_matches\<close>
  when it returns (nothing when it returns before the pool is set up).
\<close>

record run_result =
  rr_engine :: engine
  rr_results :: results_dir
  rr_submitted :: "string list"
  rr_matches :: "match_rec list"

definition run_search :: "engine \<Rightarrow> results_dir \<Rightarrow> run_io \<Rightarrow> run_result" where
  "run_search self rdir io =
     (case get_folder_stats self (io_walk io) of
        (self1, files) \<Rightarrow>
          if files = []
          then \<lparr>rr_engine = self1, rr_results = rdir, rr_submitted = [], rr_matches = []\<rparr>
          else
            (let self2 = self1\<lparr>query := Some (strip (io_query io))\<rparr>
             in if strip (io_query io) = []
                then \<lparr>rr_engine = self2, rr_results = rdir, rr_submitted = [],
                      rr_matches = []\<rparr>
                else
                  (case run_futures (io_fs io) (as_completed (io_sched io) files) (self2, []) of
                     (self3, all_matches) \<Rightarrow>
                       \<lparr>rr_engine = self3,
                        rr_results = save_results self3 (io_refused io) rdir all_matches,
                        rr_submitted = map fi_path files,
                        rr_matches = all_matches\<rparr>)))"

section \<open>\<^verbatim>\<open>main\<close>\<close>

text \<open>\<^verbatim>\<open>TextSearchEngine.__init__\<close>: the only place where the counters are set to zero.\<close>

definition init_engine :: engine where
  "init_engine =
     \<lparr>stats = \<lparr>files_processed = 0, matches_found = 0, total_size = 0, errors = 0\<rparr>,
      query = None\<rparr>"

text \<open>\<^verbatim>\<open>input(...).lower() != 'y'\<close> on the answer to the prompt that follows a run.\<close>

definition answered_yes :: "pystr \<Rightarrow> bool" where
  "answered_yes answer = (answer = [0x79] \<or> answer = [0x59])"

text \<open>
  The \<^verbatim>\<open>while True\<close> loop on one engine: each round is a run and an answer, and the loop
  ends at the first answer other than \<^verbatim>\<open>y\<close> (or when the input ends, which raises into
  the \<^verbatim>\<open>except\<close> that breaks).
\<close>

fun main_loop :: "engine \<Rightarrow> results_dir \<Rightarrow> (run_io \<times> pystr) list \<Rightarrow> engine \<times> results_dir" where
  "main_loop engine rdir [] = (engine, rdir)"
| "main_loop engine rdir ((io, answer) # rounds) =
     (let r = run_search engine rdir io
      in if answered_yes answer then main_loop (rr_engine r) (rr_results r) rounds
         else (rr_engine r, rr_results r))"

definition main :: "results_dir \<Rightarrow> (run_io \<times> pystr) list \<Rightarrow> engine \<times> results_dir" where
  "main rdir rounds = main_loop init_engine rdir rounds"

section \<open>Notions used in the statements\<close>

text \<open>The pattern \<open>pat\<close> occurs in \<open>mm\<close> at byte offset \<open>p\<close>.\<close>

definition occurs_at :: "bytes \<Rightarrow> bytes \<Rightarrow> nat \<Rightarrow> bool" where
  "occurs_at pat mm p = (p + length pat \<le> length mm \<and> take (length pat) (drop p mm) = pat)"

text \<open>
  The two views of the outcome of scanning one file: the records it carries (none when the
  \<^verbatim>\<open>except\<close> branch was taken) and whether that branch was taken.
\<close>

definition scan_matches :: "engine \<Rightarrow> filesystem \<Rightarrow> file_info \<Rightarrow> match_rec list" where
  "scan_matches self fs f = (case try_search self fs f of Inl e \<Rightarrow> [] | Inr ms \<Rightarrow> ms)"

definition scan_failed :: "engine \<Rightarrow> filesystem \<Rightarrow> file_info \<Rightarrow> bool" where
  "scan_failed self fs f = (case try_search self fs f of Inl e \<Rightarrow> True | Inr ms \<Rightarrow> False)"

text \<open>The engine with its three run counters raised by the given amounts.\<close>

definition bump :: "engine \<Rightarrow> int \<Rightarrow> int \<Rightarrow> int \<Rightarrow> engine" where
  "bump self fp mf er =
     self\<lparr>stats := (stats self)\<lparr>files_processed := files_processed (stats self) + fp,
                                matches_found := matches_found (stats self) + mf,
                                errors := errors (stats self) + er\<rparr>\<rparr>"



section \<open>Evaluating characters\<close>

lemma eq_char_of_iff: "c = char_of (n :: nat) \<longleftrightarrow> take_bit 8 n = of_char c"
  using char_of_eq_iff [of n c] by auto

lemmas char_eval = char_of_eq_iff eq_char_of_iff

section \<open>The literal search\<close>

lemma finditer_occurs:
  "pat \<noteq> [] \<Longrightarrow> p \<in> set (finditer pat mm pos) \<Longrightarrow> pos \<le> p \<and> occurs_at pat mm p"
proof (induction pat mm pos rule: finditer.induct)
  case (1 pat mm pos)
  show ?case
  proof (cases "length mm < pos + length pat")
    case True
    with "1.prems" show ?thesis by (simp add: finditer.simps)
  next
    case fits: False
    show ?thesis
    proof (cases "take (length pat) (drop pos mm) = pat")
      case True
      with fits "1.prems" have "p = pos \<or> p \<in> set (finditer pat mm (pos + length pat))"
        by (simp add: finditer.simps [of pat mm pos])
      then show ?thesis
      proof
        assume "p = pos"
        with fits True show ?thesis by (simp add: occurs_at_def)
      next
        assume "p \<in> set (finditer pat mm (pos + length pat))"
        with "1.IH"(1) [OF "1.prems"(1) fits True "1.prems"(1)] show ?thesis by simp
      qed
    next
      case False
      with fits "1.prems" have "p \<in> set (finditer pat mm (Suc pos))"
        by (simp add: finditer.simps [of pat mm pos])
      with "1.IH"(2) [OF "1.prems"(1) fits False "1.prems"(1)] show ?thesis by simp
    qed
  qed
qed

lemma finditer_apart:
  "pat \<noteq> [] \<Longrightarrow> sorted_wrt (\<lambda>a b. a + length pat \<le> b) (finditer pat mm pos)"
proof (induction pat mm pos rule: finditer.induct)
  case (1 pat mm pos)
  show ?case
  proof (cases "length mm < pos + length pat")
    case True
    with "1.prems" show ?thesis by (simp add: finditer.simps)
  next
    case fits: False
    show ?thesis
    proof (cases "take (length pat) (drop pos mm) = pat")
      case True
      have "\<forall>p \<in> set (finditer pat mm (pos + length pat)). pos + length pat \<le> p"
        using finditer_occurs [OF "1.prems"] by auto
      with "1.IH"(1) [OF "1.prems" fits True "1.prems"] fits True "1.prems" show ?thesis
        by (simp add: finditer.simps [of pat mm pos])
    next
      case False
      with "1.IH"(2) [OF "1.prems" fits False "1.prems"] fits "1.prems" show ?thesis
        by (simp add: finditer.simps [of pat mm pos])
    qed
  qed
qed

lemma finditer_most:
  "pat \<noteq> [] \<Longrightarrow> sorted_wrt (\<lambda>a b. a + length pat \<le> b) ps \<Longrightarrow> \<forall>p \<in> set ps. pos \<le> p \<and> occurs_at pat mm p
     \<Longrightarrow> length ps \<le> length (finditer pat mm pos)"
proof (induction pat mm pos arbitrary: ps rule: finditer.induct)
  case (1 pat mm pos)
  note ne = "1.prems"(1)
  show ?case
  proof (cases "length mm < pos + length pat")
    case True
    with "1.prems"(3) have "ps = []" by (cases ps) (auto simp: occurs_at_def)
    then show ?thesis by simp
  next
    case fits: False
    show ?thesis
    proof (cases "take (length pat) (drop pos mm) = pat")
      case True
      show ?thesis
      proof (cases ps)
        case Nil
        then show ?thesis by simp
      next
        case (Cons p ps')
        with "1.prems" have "sorted_wrt (\<lambda>a b. a + length pat \<le> b) ps'"
          and "\<forall>p' \<in> set ps'. pos + length pat \<le> p' \<and> occurs_at pat mm p'"
          by auto
        then have "length ps' \<le> length (finditer pat mm (pos + length pat))"
          using "1.IH"(1) [OF ne fits True ne] by blast
        with Cons fits True ne show ?thesis
          by (simp add: finditer.simps [of pat mm pos])
      qed
    next
      case False
      have "\<forall>p \<in> set ps. Suc pos \<le> p \<and> occurs_at pat mm p"
      proof
        fix p assume "p \<in> set ps"
        with "1.prems"(3) have p: "pos \<le> p" "occurs_at pat mm p" by auto
        with False have "p \<noteq> pos" by (auto simp: occurs_at_def)
        with p show "Suc pos \<le> p \<and> occurs_at pat mm p" by simp
      qed
      then have "length ps \<le> length (finditer pat mm (Suc pos))"
        using "1.IH"(2) [OF ne fits False ne "1.prems"(2)] by blast
      with fits False ne show ?thesis
        by (simp add: finditer.simps [of pat mm pos])
    qed
  qed
qed

lemma finditer_covers:
  "pat \<noteq> [] \<Longrightarrow> occurs_at pat mm p \<Longrightarrow> pos \<le> p
     \<Longrightarrow> \<exists>r \<in> set (finditer pat mm pos). r \<le> p \<and> p < r + length pat"
proof (induction pat mm pos rule: finditer.induct)
  case (1 pat mm pos)
  note ne = "1.prems"(1)
  from "1.prems" have fits: "\<not> length mm < pos + length pat"
    by (simp add: occurs_at_def)
  show ?case
  proof (cases "take (length pat) (drop pos mm) = pat")
    case True
    show ?thesis
    proof (cases "p < pos + length pat")
      case True
      with \<open>pos \<le> p\<close> fits \<open>take (length pat) (drop pos mm) = pat\<close> ne show ?thesis
        by (simp add: finditer.simps [of pat mm pos])
    next
      case False
      then have "pos + length pat \<le> p" by simp
      from "1.IH"(1) [OF ne fits True ne "1.prems"(2) this] fits True ne show ?thesis
        by (simp add: finditer.simps [of pat mm pos])
    qed
  next
    case False
    with "1.prems" have "p \<noteq> pos" by (auto simp: occurs_at_def)
    with \<open>pos \<le> p\<close> have "Suc pos \<le> p" by simp
    from "1.IH"(2) [OF ne fits False ne "1.prems"(2) this] fits False ne show ?thesis
      by (simp add: finditer.simps [of pat mm pos])
  qed
qed

lemma finditer_all:
  assumes ne: "pat \<noteq> []"
    and sep: "\<forall>p p'. occurs_at pat mm p \<and> occurs_at pat mm p' \<and> p < p' \<longrightarrow> p + length pat \<le> p'"
  shows "set (finditer pat mm 0) = {p. occurs_at pat mm p}"
proof
  show "set (finditer pat mm 0) \<subseteq> {p. occurs_at pat mm p}"
    using finditer_occurs [OF ne] by blast
  show "{p. occurs_at pat mm p} \<subseteq> set (finditer pat mm 0)"
  proof
    fix p assume "p \<in> {p. occurs_at pat mm p}"
    then have p: "occurs_at pat mm p" by simp
    from finditer_covers [OF ne p, of 0]
    obtain r where r: "r \<in> set (finditer pat mm 0)" "r \<le> p" "p < r + length pat" by auto
    from r(1) have "occurs_at pat mm r" using finditer_occurs [OF ne] by blast
    with sep p r(2,3) have "r = p" by (metis le_neq_implies_less not_le)
    with r(1) show "p \<in> set (finditer pat mm 0)" by simp
  qed
qed

lemma apart_distinct: "pat \<noteq> [] \<Longrightarrow> sorted_wrt (\<lambda>a b. a + length pat \<le> b) ps \<Longrightarrow> distinct ps"
  by (induction ps) auto

lemma finditer_count:
  assumes ne: "pat \<noteq> []"
    and sep: "\<forall>p p'. occurs_at pat mm p \<and> occurs_at pat mm p' \<and> p < p' \<longrightarrow> p + length pat \<le> p'"
  shows "length (finditer pat mm 0) = card {p. occurs_at pat mm p}"
  using finditer_all [OF ne sep] apart_distinct [OF ne finditer_apart [OF ne], of mm 0]
  by (metis distinct_card)

lemma utf8_encode_cp_nonempty: "utf8_encode_cp cp = Some bs \<Longrightarrow> bs \<noteq> []"
  by (auto simp: utf8_encode_cp_def split: if_splits)

lemma utf8_encode_nonempty: "utf8_encode q = Some pat \<Longrightarrow> q \<noteq> [] \<Longrightarrow> pat \<noteq> []"
  by (cases q) (auto split: option.splits dest: utf8_encode_cp_nonempty)

lemma search_file_matches:
  assumes "open_mmap fs (fi_path fi) = Content mm" and "query self = Some q" and "utf8_encode q = Some pat"
    and "pat \<noteq> []"
  shows "\<exists>self' err. search_file self fs fi =
           (self', fi_path fi,
            map (\<lambda>s. \<lparr>m_file = fi_path fi, m_context = match_context mm s (s + length pat),
                       m_position = s\<rparr>) (finditer pat mm 0),
            err)"
proof (cases "mm = []")
  case True
  with assms have "finditer pat mm 0 = []" by (simp add: finditer.simps)
  with True assms show ?thesis by (simp add: search_file_def try_search_def)
next
  case False
  with assms show ?thesis by (simp add: search_file_def try_search_def)
qed

text \<open>
  C3. The query is searched as the literal sequence of its UTF-8 bytes. The records returned
  for a file start at occurrences of it and come in ascending order, each starting at or
  after the end of the one before. No family of pairwise non-overlapping occurrences is
  larger than the list returned; and when no two occurrences in the file overlap, the
  records are exactly the occurrences, one each.
\<close>

theorem search_file_nonoverlapping_occurrences:
  assumes content: "open_mmap fs (fi_path fi) = Content mm"
    and query: "query self = Some q" "q \<noteq> []" "utf8_encode q = Some pat"
  shows "\<exists>self' ms err. search_file self fs fi = (self', fi_path fi, ms, err) \<and>
           (\<forall>m \<in> set ms. occurs_at pat mm (m_position m)) \<and>
           sorted_wrt (\<lambda>a b. m_position a + length pat \<le> m_position b) ms \<and>
           (\<forall>ps. sorted_wrt (\<lambda>a b. a + length pat \<le> b) ps \<and> (\<forall>p \<in> set ps. occurs_at pat mm p)
                 \<longrightarrow> length ps \<le> length ms) \<and>
           ((\<forall>p p'. occurs_at pat mm p \<and> occurs_at pat mm p' \<and> p < p' \<longrightarrow> p + length pat \<le> p')
              \<longrightarrow> m_position ` set ms = {p. occurs_at pat mm p} \<and>
                  length ms = card {p. occurs_at pat mm p})"
proof -
  from query have ne: "pat \<noteq> []" by (simp add: utf8_encode_nonempty)
  define mk where "mk = (\<lambda>s. \<lparr>m_file = fi_path fi,
    m_context = match_context mm s (s + length pat), m_position = s\<rparr>)"
  define ms where "ms = map mk (finditer pat mm 0)"
  have pos: "map m_position ms = finditer pat mm 0"
    by (simp add: ms_def mk_def comp_def)
  from search_file_matches [of fs fi mm self q pat] content query ne
  obtain self' err where run: "search_file self fs fi = (self', fi_path fi, ms, err)"
    by (auto simp: ms_def mk_def)
  have occ: "\<forall>m \<in> set ms. occurs_at pat mm (m_position m)"
    using finditer_occurs [OF ne, of _ mm 0] by (auto simp: ms_def mk_def)
  have "sorted_wrt (\<lambda>a b. a + length pat \<le> b) (map m_position ms)"
    unfolding pos by (rule finditer_apart [OF ne])
  then have asc: "sorted_wrt (\<lambda>a b. m_position a + length pat \<le> m_position b) ms"
    by (simp add: sorted_wrt_map)
  have most: "\<forall>ps. sorted_wrt (\<lambda>a b. a + length pat \<le> b) ps \<and> (\<forall>p \<in> set ps. occurs_at pat mm p)
      \<longrightarrow> length ps \<le> length ms"
  proof (intro allI impI)
    fix ps
    assume "sorted_wrt (\<lambda>a b. a + length pat \<le> b) ps \<and> (\<forall>p \<in> set ps. occurs_at pat mm p)"
    then have "length ps \<le> length (finditer pat mm 0)"
      using finditer_most [OF ne, of ps 0 mm] by simp
    then show "length ps \<le> length ms" by (simp add: ms_def)
  qed
  have all: "(\<forall>p p'. occurs_at pat mm p \<and> occurs_at pat mm p' \<and> p < p' \<longrightarrow> p + length pat \<le> p')
      \<longrightarrow> m_position ` set ms = {p. occurs_at pat mm p} \<and>
          length ms = card {p. occurs_at pat mm p}"
  proof
    assume sep: "\<forall>p p'. occurs_at pat mm p \<and> occurs_at pat mm p' \<and> p < p' \<longrightarrow> p + length pat \<le> p'"
    have "m_position ` set ms = set (map m_position ms)" by simp
    also have "\<dots> = {p. occurs_at pat mm p}"
      unfolding pos by (rule finditer_all [OF ne sep])
    finally have "m_position ` set ms = {p. occurs_at pat mm p}" .
    moreover have "length ms = card {p. occurs_at pat mm p}"
      using finditer_count [OF ne sep] by (simp add: ms_def)
    ultimately show "m_position ` set ms = {p. occurs_at pat mm p} \<and>
      length ms = card {p. occurs_at pat mm p}" by simp
  qed
  from run occ asc most all show ?thesis by blast
qed

theorem search_file_nonoverlapping_occurrences_witness:
  "open_mmap [(''a.txt'', Content ''foo bar foo'')] (fi_path \<lparr>fi_path = ''a.txt'', fi_size = 11\<rparr>) = Content ''foo bar foo'' \<and>
   query (init_engine\<lparr>query := Some (map of_char ''foo'')\<rparr>) = Some (map of_char ''foo'') \<and>
   map of_char ''foo'' \<noteq> ([] :: nat list) \<and>
   utf8_encode (map of_char ''foo'') = Some ''foo'' \<and>
   (\<exists>self' ms err.
      search_file (init_engine\<lparr>query := Some (map of_char ''foo'')\<rparr>) [(''a.txt'', Content ''foo bar foo'')]
        \<lparr>fi_path = ''a.txt'', fi_size = 11\<rparr>
        = (self', fi_path \<lparr>fi_path = ''a.txt'', fi_size = 11\<rparr>, ms, err) \<and>
      sorted_wrt (\<lambda>a b. m_position a + length ''foo'' \<le> m_position b) ms \<and>
      (\<forall>ps. sorted_wrt (\<lambda>a b. a + length ''foo'' \<le> b) ps \<and>
            (\<forall>p \<in> set ps. occurs_at ''foo'' ''foo bar foo'' p)
            \<longrightarrow> length ps \<le> length ms))"
proof -
  have h1: "open_mmap [(''a.txt'', Content ''foo bar foo'')] (fi_path \<lparr>fi_path = ''a.txt'', fi_size = 11\<rparr>)
      = Content ''foo bar foo''" by (simp add: open_mmap_def)
  have h2: "query (init_engine\<lparr>query := Some (map of_char ''foo'')\<rparr>) = Some (map of_char ''foo'')"
    by simp
  have h3: "map of_char ''foo'' \<noteq> ([] :: nat list)" by simp
  have h4: "utf8_encode (map of_char ''foo'') = Some ''foo''"
    by (simp add: utf8_encode_cp_def char_eval)
  from search_file_nonoverlapping_occurrences
    [of "[(''a.txt'', Content ''foo bar foo'')]" "\<lparr>fi_path = ''a.txt'', fi_size = 11\<rparr>" "''foo bar foo''",
     OF h1 h2 h3 h4]
  have "\<exists>self' ms err.
      search_file (init_engine\<lparr>query := Some (map of_char ''foo'')\<rparr>) [(''a.txt'', Content ''foo bar foo'')]
        \<lparr>fi_path = ''a.txt'', fi_size = 11\<rparr>
        = (self', fi_path \<lparr>fi_path = ''a.txt'', fi_size = 11\<rparr>, ms, err) \<and>
      sorted_wrt (\<lambda>a b. m_position a + length ''foo'' \<le> m_position b) ms \<and>
      (\<forall>ps. sorted_wrt (\<lambda>a b. a + length ''foo'' \<le> b) ps \<and>
            (\<forall>p \<in> set ps. occurs_at ''foo'' ''foo bar foo'' p)
            \<longrightarrow> length ps \<le> length ms)"
    by blast
  with h1 h2 h3 h4 show ?thesis by blast
qed

section \<open>Effects of a scan and of the loop\<close>

lemmas eval_defs = run_search_def get_folder_stats_def is_txt_def lower_ascii_def strip_def
  is_space_def search_file_def try_search_def open_mmap_def utf8_encode_cp_def char_eval
  finditer.simps match_context_def py_slice_def loop_body_def save_results_def init_engine_def
  main_def answered_yes_def Let_def

lemma try_search_query: "query a = query b \<Longrightarrow> try_search a fs f = try_search b fs f"
  by (simp add: try_search_def split: read_result.splits)

lemma bump_query [simp]: "query (bump self fp mf er) = query self"
  by (simp add: bump_def)

lemma bump_bump [simp]: "bump (bump self a b c) a' b' c' = bump self (a + a') (b + b') (c + c')"
  by (simp add: bump_def add.assoc)

lemma bump_zero [simp]: "bump self 0 0 0 = self"
  by (simp add: bump_def)

lemma scan_matches_bump [simp]: "scan_matches (bump self a b c) fs f = scan_matches self fs f"
  by (simp add: scan_matches_def try_search_query [of "bump self a b c" self])

lemma scan_failed_bump [simp]: "scan_failed (bump self a b c) fs f = scan_failed self fs f"
  by (simp add: scan_failed_def try_search_query [of "bump self a b c" self])

lemma search_file_effect:
  "search_file self fs f =
     (bump self 0 0 (if scan_failed self fs f then 1 else 0),
      fi_path f, scan_matches self fs f,
      (case try_search self fs f of Inl e \<Rightarrow> e | Inr ms \<Rightarrow> []))"
  by (simp add: search_file_def scan_failed_def scan_matches_def bump_def split: sum.splits)

lemma loop_body_effect:
  "loop_body (self, all_matches) (path, matches, error) =
     (bump self 1 (int (length matches)) 0, all_matches @ matches)"
  by (cases "matches = []") (simp_all add: loop_body_def bump_def Let_def)

lemma run_futures_effect:
  "run_futures fs fl (self, all_matches) =
     (bump self (int (length fl)) (\<Sum>f\<leftarrow>fl. int (length (scan_matches self fs f)))
        (int (length (filter (scan_failed self fs) fl))),
      all_matches @ concat (map (scan_matches self fs) fl))"
proof (induction fl arbitrary: self all_matches)
  case Nil
  show ?case by simp
next
  case (Cons f fl)
  have "run_futures fs (f # fl) (self, all_matches) =
      run_futures fs fl
        (bump self 1 (int (length (scan_matches self fs f))) (if scan_failed self fs f then 1 else 0),
         all_matches @ scan_matches self fs f)"
    by (simp add: search_file_effect loop_body_effect)
  also have "\<dots> = (bump self (int (length (f # fl)))
        (\<Sum>f\<leftarrow>f # fl. int (length (scan_matches self fs f)))
        (int (length (filter (scan_failed self fs) (f # fl)))),
      all_matches @ concat (map (scan_matches self fs) (f # fl)))"
    by (simp add: Cons.IH)
  finally show ?case .
qed




text \<open>
  C2, amended. \<^verbatim>\<open>search_file\<close> leaves the engine as it is when the scan succeeds; when the
  scan fails it adds one to \<^verbatim>\<open>errors\<close> in place, and that is all it changes:
  \<^verbatim>\<open>files_processed\<close>, \<^verbatim>\<open>matches_found\<close>, \<^verbatim>\<open>total_size\<close> and the query are never touched
  by it.
\<close>

theorem search_file_frame:
  "fst (search_file self fs f) =
     (if scan_failed self fs f
      then self\<lparr>stats := (stats self)\<lparr>errors := errors (stats self) + 1\<rparr>\<rparr>
      else self) \<and>
   files_processed (stats (fst (search_file self fs f))) = files_processed (stats self) \<and>
   matches_found (stats (fst (search_file self fs f))) = matches_found (stats self) \<and>
   total_size (stats (fst (search_file self fs f))) = total_size (stats self) \<and>
   query (fst (search_file self fs f)) = query self"
  by (simp add: search_file_def scan_failed_def split: sum.splits)

theorem search_file_frame_witness:
  "fst (search_file init_engine [(''c.txt'', Raises ''Permission denied'')]
          \<lparr>fi_path = ''c.txt'', fi_size = 5\<rparr>) =
     (if scan_failed init_engine [(''c.txt'', Raises ''Permission denied'')]
           \<lparr>fi_path = ''c.txt'', fi_size = 5\<rparr>
      then init_engine\<lparr>stats := (stats init_engine)\<lparr>errors := errors (stats init_engine) + 1\<rparr>\<rparr>
      else init_engine) \<and>
   scan_failed init_engine [(''c.txt'', Raises ''Permission denied'')]
     \<lparr>fi_path = ''c.txt'', fi_size = 5\<rparr>"
proof -
  have "scan_failed init_engine [(''c.txt'', Raises ''Permission denied'')]
      \<lparr>fi_path = ''c.txt'', fi_size = 5\<rparr>"
    by (simp add: scan_failed_def try_search_def open_mmap_def)
  with search_file_frame [of init_engine "[(''c.txt'', Raises ''Permission denied'')]"
      "\<lparr>fi_path = ''c.txt'', fi_size = 5\<rparr>"]
  show ?thesis by blast
qed

text \<open>
  C2 as stated fails: scanning an unreadable file changes the engine.
\<close>

theorem search_file_mutates_engine_counterexample:
  "fst (search_file init_engine [(''c.txt'', Raises ''Permission denied'')]
          \<lparr>fi_path = ''c.txt'', fi_size = 5\<rparr>) \<noteq> init_engine"
  by (simp add: search_file_def try_search_def open_mmap_def init_engine_def)

text \<open>
  C8. When the query is empty after stripping, \<^verbatim>\<open>run_search\<close> returns before the pool is
  set up: nothing is submitted, nothing is written, and the counters of processed files,
  matches and errors stay as they were.
\<close>

theorem empty_query_is_rejected:
  assumes "strip (io_query io) = []"
  shows "rr_submitted (run_search self rdir io) = [] \<and>
         rr_matches (run_search self rdir io) = [] \<and>
         rr_results (run_search self rdir io) = rdir \<and>
         files_processed (stats (rr_engine (run_search self rdir io))) = files_processed (stats self) \<and>
         matches_found (stats (rr_engine (run_search self rdir io))) = matches_found (stats self) \<and>
         errors (stats (rr_engine (run_search self rdir io))) = errors (stats self)"
  using assms
  by (auto simp: run_search_def get_folder_stats_def Let_def split: prod.splits)

theorem empty_query_is_rejected_witness:
  "strip (io_query \<lparr>io_walk = [\<lparr>de_name = map of_char ''a.txt'', de_path = ''db/a.txt'',
                                de_getsize = Inr 11\<rparr>],
                     io_fs = [(''db/a.txt'', Content ''foo bar foo'')],
                     io_query = map of_char ''  '', io_sched = [], io_refused = {}\<rparr>) = [] \<and>
   rr_submitted (run_search init_engine Map.empty
                   \<lparr>io_walk = [\<lparr>de_name = map of_char ''a.txt'', de_path = ''db/a.txt'',
                                de_getsize = Inr 11\<rparr>],
                     io_fs = [(''db/a.txt'', Content ''foo bar foo'')],
                     io_query = map of_char ''  '', io_sched = [], io_refused = {}\<rparr>) = [] \<and>
   errors (stats (rr_engine (run_search init_engine Map.empty
                   \<lparr>io_walk = [\<lparr>de_name = map of_char ''a.txt'', de_path = ''db/a.txt'',
                                de_getsize = Inr 11\<rparr>],
                     io_fs = [(''db/a.txt'', Content ''foo bar foo'')],
                     io_query = map of_char ''  '', io_sched = [], io_refused = {}\<rparr>)))
     = errors (stats init_engine)"
proof -
  have h: "strip (io_query \<lparr>io_walk = [\<lparr>de_name = map of_char ''a.txt'', de_path = ''db/a.txt'',
                                de_getsize = Inr 11\<rparr>],
                     io_fs = [(''db/a.txt'', Content ''foo bar foo'')],
                     io_query = map of_char ''  '', io_sched = [], io_refused = {}\<rparr>) = []"
    by (simp add: strip_def is_space_def)
  from empty_query_is_rejected [OF h, of init_engine Map.empty] h show ?thesis by blast
qed

text \<open>
  C10. \<^verbatim>\<open>save_results\<close> on an empty list returns the results directory unchanged, so a
  run that collected no match leaves the directory as it found it.
\<close>

theorem no_matches_no_file:
  "save_results self refused rdir [] = rdir \<and>
   (rr_matches (run_search self rdir io) = [] \<longrightarrow> rr_results (run_search self rdir io) = rdir)"
  by (simp add: run_search_def save_results_def Let_def split: prod.splits)

theorem no_matches_no_file_witness:
  "rr_matches (run_search init_engine Map.empty
                 \<lparr>io_walk = [\<lparr>de_name = map of_char ''b.txt'', de_path = ''db/b.txt'',
                              de_getsize = Inr 12\<rparr>],
                   io_fs = [(''db/b.txt'', Content ''nothing here'')],
                   io_query = map of_char ''foo'', io_sched = [], io_refused = {}\<rparr>) = [] \<and>
   rr_submitted (run_search init_engine Map.empty
                 \<lparr>io_walk = [\<lparr>de_name = map of_char ''b.txt'', de_path = ''db/b.txt'',
                              de_getsize = Inr 12\<rparr>],
                   io_fs = [(''db/b.txt'', Content ''nothing here'')],
                   io_query = map of_char ''foo'', io_sched = [], io_refused = {}\<rparr>) = [''db/b.txt''] \<and>
   rr_results (run_search init_engine Map.empty
                 \<lparr>io_walk = [\<lparr>de_name = map of_char ''b.txt'', de_path = ''db/b.txt'',
                              de_getsize = Inr 12\<rparr>],
                   io_fs = [(''db/b.txt'', Content ''nothing here'')],
                   io_query = map of_char ''foo'', io_sched = [], io_refused = {}\<rparr>) = Map.empty"
proof -
  have h: "rr_matches (run_search init_engine Map.empty
                 \<lparr>io_walk = [\<lparr>de_name = map of_char ''b.txt'', de_path = ''db/b.txt'',
                              de_getsize = Inr 12\<rparr>],
                   io_fs = [(''db/b.txt'', Content ''nothing here'')],
                   io_query = map of_char ''foo'', io_sched = [], io_refused = {}\<rparr>) = []"
    by (simp add: eval_defs)
  have s: "rr_submitted (run_search init_engine Map.empty
                 \<lparr>io_walk = [\<lparr>de_name = map of_char ''b.txt'', de_path = ''db/b.txt'',
                              de_getsize = Inr 12\<rparr>],
                   io_fs = [(''db/b.txt'', Content ''nothing here'')],
                   io_query = map of_char ''foo'', io_sched = [], io_refused = {}\<rparr>) = [''db/b.txt'']"
    by (simp add: eval_defs)
  from no_matches_no_file [of init_engine "{}" Map.empty
                 "\<lparr>io_walk = [\<lparr>de_name = map of_char ''b.txt'', de_path = ''db/b.txt'',
                              de_getsize = Inr 12\<rparr>],
                   io_fs = [(''db/b.txt'', Content ''nothing here'')],
                   io_query = map of_char ''foo'', io_sched = [], io_refused = {}\<rparr>"] h s
  show ?thesis by blast
qed

section \<open>Completion order\<close>

lemma mset_pick: "i < length l \<Longrightarrow> mset (l ! i # take i l @ drop (Suc i) l) = mset l"
proof -
  assume "i < length l"
  then have "l = take i l @ l ! i # drop (Suc i) l" by (rule id_take_nth_drop)
  then have "mset l = mset (take i l @ l ! i # drop (Suc i) l)" by simp
  then show ?thesis by simp
qed

lemma mset_as_completed: "mset (as_completed ks xs) = mset xs"
proof (induction ks xs rule: as_completed.induct)
  case (1 ks)
  show ?case by simp
next
  case (2 x xs)
  then show ?case by simp
next
  case (3 k ks x xs)
  define i where "i = k mod length (x # xs)"
  have i: "i < length (x # xs)" by (simp add: i_def)
  from "3.IH" [OF i_def]
  have "mset (as_completed ks (take i (x # xs) @ drop (Suc i) (x # xs)))
      = mset (take i (x # xs) @ drop (Suc i) (x # xs))" .
  then have "mset (as_completed (k # ks) (x # xs))
      = mset ((x # xs) ! i # take i (x # xs) @ drop (Suc i) (x # xs))"
    by (simp add: i_def Let_def)
  also have "\<dots> = mset (x # xs)" by (rule mset_pick [OF i])
  finally show ?case .
qed

lemma length_as_completed: "length (as_completed ks xs) = length xs"
  using mset_as_completed [of ks xs] by (metis size_mset)

lemma sum_list_perm:
  fixes g :: "'a \<Rightarrow> int"
  shows "mset xs = mset ys \<Longrightarrow> (\<Sum>x\<leftarrow>xs. g x) = (\<Sum>x\<leftarrow>ys. g x)"
  by (metis mset_map sum_mset_sum_list)

lemma mset_concat_perm:
  assumes "mset xs = mset ys"
  shows "mset (concat (map g xs)) = mset (concat (map g ys))"
proof -
  have "mset (concat (map g xs)) = sum_mset (image_mset (mset \<circ> g) (mset xs))" for xs
    by (induction xs) simp_all
  with assms show ?thesis by simp
qed

lemma length_filter_perm:
  "mset xs = mset ys \<Longrightarrow> length (filter P xs) = length (filter P ys)"
  by (metis mset_filter size_mset)

lemma scan_matches_file: "m \<in> set (scan_matches self fs f) \<Longrightarrow> m_file m = fi_path f"
  by (auto simp: scan_matches_def try_search_def split: read_result.splits if_splits option.splits)

lemma scan_matches_path:
  "fi_path f = fi_path g \<Longrightarrow> scan_matches self fs f = scan_matches self fs g"
  by (auto simp: scan_matches_def try_search_def split: read_result.splits option.splits)

lemma filter_scan_matches:
  "filter (\<lambda>m. m_file m = p) (scan_matches self fs f) =
     (if fi_path f = p then scan_matches self fs f else [])"
  by (auto simp: filter_empty_conv filter_id_conv dest: scan_matches_file)

lemma filter_concat_scans:
  "filter (\<lambda>m. m_file m = p) (concat (map (scan_matches self fs) fl)) =
     concat (map (scan_matches self fs) (filter (\<lambda>f. fi_path f = p) fl))"
  by (induction fl) (simp_all add: filter_scan_matches)

lemma concat_same_path:
  "\<forall>f \<in> set fl. fi_path f = p \<Longrightarrow>
     concat (map (scan_matches self fs) fl) =
     concat (replicate (length fl) (scan_matches self fs \<lparr>fi_path = p, fi_size = 0\<rparr>))"
proof (induction fl)
  case Nil
  show ?case by simp
next
  case (Cons f fl)
  from Cons.prems have "fi_path f = fi_path \<lparr>fi_path = p, fi_size = 0\<rparr>" by simp
  then have head: "scan_matches self fs f = scan_matches self fs \<lparr>fi_path = p, fi_size = 0\<rparr>"
    by (rule scan_matches_path)
  from Cons.prems have "\<forall>f \<in> set fl. fi_path f = p" by simp
  then have "concat (map (scan_matches self fs) fl) =
      concat (replicate (length fl) (scan_matches self fs \<lparr>fi_path = p, fi_size = 0\<rparr>))"
    by (rule Cons.IH)
  then show ?case by (simp only: list.map concat.simps head length_Cons replicate_Suc)
qed

lemma per_file_perm:
  assumes "mset fl = mset fl'"
  shows "filter (\<lambda>m. m_file m = p) (concat (map (scan_matches self fs) fl)) =
         filter (\<lambda>m. m_file m = p) (concat (map (scan_matches self fs) fl'))"
proof -
  have len: "length (filter (\<lambda>f. fi_path f = p) fl) = length (filter (\<lambda>f. fi_path f = p) fl')"
    using assms by (rule length_filter_perm)
  have "concat (map (scan_matches self fs) (filter (\<lambda>f. fi_path f = p) l)) =
      concat (replicate (length (filter (\<lambda>f. fi_path f = p) l))
        (scan_matches self fs \<lparr>fi_path = p, fi_size = 0\<rparr>))" for l
    by (rule concat_same_path) simp
  then show ?thesis by (simp add: filter_concat_scans len)
qed

lemma per_file_distinct:
  assumes "distinct (map fi_path fl)" and "f \<in> set fl"
  shows "filter (\<lambda>m. m_file m = fi_path f) (concat (map (scan_matches self fs) fl)) =
         scan_matches self fs f"
  using assms
proof (induction fl)
  case Nil
  then show ?case by simp
next
  case (Cons g fl)
  show ?case
  proof (cases "g = f")
    case True
    with Cons.prems have "\<forall>h \<in> set fl. fi_path h \<noteq> fi_path f" by (force simp: image_iff)
    then have "filter (\<lambda>f'. fi_path f' = fi_path f) fl = []" by (simp add: filter_empty_conv)
    with True show ?thesis by (simp add: filter_scan_matches filter_concat_scans)
  next
    case False
    with Cons.prems have "f \<in> set fl" and "fi_path g \<noteq> fi_path f" and "distinct (map fi_path fl)"
      by auto
    with Cons.IH show ?thesis by (simp add: filter_scan_matches)
  qed
qed

text \<open>
  C7. Two completion orders of the same futures end with the same engine (so the same
  \<^verbatim>\<open>files_processed\<close>, \<^verbatim>\<open>matches_found\<close> and \<^verbatim>\<open>errors\<close>) and with the same matches as a
  multiset; the matches of any one file appear in the same order in both, and when the
  paths are distinct they are that file's own match list, in its order.
\<close>

theorem aggregation_order_independent:
  assumes "mset fl = mset fl'"
  shows "fst (run_futures fs fl (self, all_matches)) = fst (run_futures fs fl' (self, all_matches)) \<and>
         mset (snd (run_futures fs fl (self, all_matches))) =
           mset (snd (run_futures fs fl' (self, all_matches))) \<and>
         (\<forall>p. filter (\<lambda>m. m_file m = p) (snd (run_futures fs fl (self, all_matches))) =
              filter (\<lambda>m. m_file m = p) (snd (run_futures fs fl' (self, all_matches)))) \<and>
         (distinct (map fi_path fl) \<longrightarrow>
            (\<forall>f \<in> set fl. filter (\<lambda>m. m_file m = fi_path f) (snd (run_futures fs fl' (self, []))) =
                           scan_matches self fs f))"
proof -
  have len: "length fl = length fl'" using assms by (rule mset_eq_length)
  have "fst (run_futures fs fl (self, all_matches)) = fst (run_futures fs fl' (self, all_matches))"
    using sum_list_perm [OF assms, of "\<lambda>f. int (length (scan_matches self fs f))"]
      length_filter_perm [OF assms, of "scan_failed self fs"] len
    by (simp add: run_futures_effect)
  moreover have "mset (snd (run_futures fs fl (self, all_matches))) =
      mset (snd (run_futures fs fl' (self, all_matches)))"
    using mset_concat_perm [OF assms, of "scan_matches self fs"] by (simp add: run_futures_effect)
  moreover have "\<forall>p. filter (\<lambda>m. m_file m = p) (snd (run_futures fs fl (self, all_matches))) =
      filter (\<lambda>m. m_file m = p) (snd (run_futures fs fl' (self, all_matches)))"
    using per_file_perm [OF assms, of _ self fs] by (simp add: run_futures_effect)
  moreover have "distinct (map fi_path fl) \<longrightarrow>
      (\<forall>f \<in> set fl. filter (\<lambda>m. m_file m = fi_path f) (snd (run_futures fs fl' (self, []))) =
                     scan_matches self fs f)"
  proof (intro impI ballI)
    fix f assume d: "distinct (map fi_path fl)" and f: "f \<in> set fl"
    have "filter (\<lambda>m. m_file m = fi_path f) (snd (run_futures fs fl' (self, []))) =
        filter (\<lambda>m. m_file m = fi_path f) (concat (map (scan_matches self fs) fl))"
      using per_file_perm [OF assms, of "fi_path f" self fs] by (simp add: run_futures_effect)
    also have "\<dots> = scan_matches self fs f" by (rule per_file_distinct [OF d f])
    finally show "filter (\<lambda>m. m_file m = fi_path f) (snd (run_futures fs fl' (self, []))) =
        scan_matches self fs f" .
  qed
  ultimately show ?thesis by blast
qed

theorem aggregation_order_independent_witness:
  "mset [\<lparr>fi_path = ''a.txt'', fi_size = 11\<rparr>, \<lparr>fi_path = ''b.txt'', fi_size = 12\<rparr>] =
   mset [\<lparr>fi_path = ''b.txt'', fi_size = 12\<rparr>, \<lparr>fi_path = ''a.txt'', fi_size = 11\<rparr>] \<and>
   distinct (map fi_path [\<lparr>fi_path = ''a.txt'', fi_size = 11\<rparr>, \<lparr>fi_path = ''b.txt'', fi_size = 12\<rparr>]) \<and>
   fst (run_futures [(''a.txt'', Content ''foo bar foo''), (''b.txt'', Content ''foo'')]
          [\<lparr>fi_path = ''a.txt'', fi_size = 11\<rparr>, \<lparr>fi_path = ''b.txt'', fi_size = 12\<rparr>]
          (init_engine\<lparr>query := Some (map of_char ''foo'')\<rparr>, [])) =
   fst (run_futures [(''a.txt'', Content ''foo bar foo''), (''b.txt'', Content ''foo'')]
          [\<lparr>fi_path = ''b.txt'', fi_size = 12\<rparr>, \<lparr>fi_path = ''a.txt'', fi_size = 11\<rparr>]
          (init_engine\<lparr>query := Some (map of_char ''foo'')\<rparr>, [])) \<and>
   filter (\<lambda>m. m_file m = fi_path \<lparr>fi_path = ''a.txt'', fi_size = 11\<rparr>)
     (snd (run_futures [(''a.txt'', Content ''foo bar foo''), (''b.txt'', Content ''foo'')]
          [\<lparr>fi_path = ''b.txt'', fi_size = 12\<rparr>, \<lparr>fi_path = ''a.txt'', fi_size = 11\<rparr>]
          (init_engine\<lparr>query := Some (map of_char ''foo'')\<rparr>, []))) =
   scan_matches (init_engine\<lparr>query := Some (map of_char ''foo'')\<rparr>)
     [(''a.txt'', Content ''foo bar foo''), (''b.txt'', Content ''foo'')]
     \<lparr>fi_path = ''a.txt'', fi_size = 11\<rparr>"
proof -
  have h: "mset [\<lparr>fi_path = ''a.txt'', fi_size = 11\<rparr>, \<lparr>fi_path = ''b.txt'', fi_size = 12\<rparr>] =
      mset [\<lparr>fi_path = ''b.txt'', fi_size = 12\<rparr>, \<lparr>fi_path = ''a.txt'', fi_size = 11\<rparr>]"
    by (simp add: add_mset_commute)
  have d: "distinct (map fi_path
      [\<lparr>fi_path = ''a.txt'', fi_size = 11\<rparr>, \<lparr>fi_path = ''b.txt'', fi_size = 12\<rparr>])"
    by simp
  have a: "\<lparr>fi_path = ''a.txt'', fi_size = 11\<rparr> \<in>
      set [\<lparr>fi_path = ''a.txt'', fi_size = 11\<rparr>, \<lparr>fi_path = ''b.txt'', fi_size = 12\<rparr>]"
    by simp
  from aggregation_order_independent [OF h,
      of "[(''a.txt'', Content ''foo bar foo''), (''b.txt'', Content ''foo'')]"
         "init_engine\<lparr>query := Some (map of_char ''foo'')\<rparr>" "[]"] h d a
  show ?thesis by blast
qed

lemma run_search_adds:
  "files_processed (stats (rr_engine (run_search self rdir io))) =
     files_processed (stats self) + int (length (rr_submitted (run_search self rdir io))) \<and>
   matches_found (stats (rr_engine (run_search self rdir io))) =
     matches_found (stats self) + int (length (rr_matches (run_search self rdir io)))"
proof -
  have sum_len: "(\<Sum>f\<leftarrow>l. int (length (g f))) = int (length (concat (map g l)))"
    for l :: "file_info list" and g :: "file_info \<Rightarrow> match_rec list"
    by (induction l) simp_all
  show ?thesis
    by (auto simp: run_search_def get_folder_stats_def Let_def run_futures_effect bump_def
        length_as_completed sum_len split: prod.splits)
qed

section \<open>Runs on one engine\<close>

text \<open>
  C1 fails on the code. The counters are set to zero in \<^verbatim>\<open>__init__\<close> only and \<^verbatim>\<open>main\<close>
  runs every round on the same engine: after two rounds over a folder with one file,
  \<^verbatim>\<open>files_processed\<close> is 2 although the second run enumerated one target.
\<close>

theorem counters_survive_into_next_run:
  "length (snd (get_folder_stats init_engine
      [\<lparr>de_name = map of_char ''a.txt'', de_path = ''db/a.txt'', de_getsize = Inr 7\<rparr>])) = 1 \<and>
   files_processed (stats (fst (main Map.empty
     [(\<lparr>io_walk = [\<lparr>de_name = map of_char ''a.txt'', de_path = ''db/a.txt'', de_getsize = Inr 7\<rparr>],
        io_fs = [(''db/a.txt'', Content ''foo foo'')],
        io_query = map of_char ''foo'', io_sched = [], io_refused = {}\<rparr>, [0x79]),
      (\<lparr>io_walk = [\<lparr>de_name = map of_char ''a.txt'', de_path = ''db/a.txt'', de_getsize = Inr 7\<rparr>],
        io_fs = [(''db/a.txt'', Content ''foo foo'')],
        io_query = map of_char ''foo'', io_sched = [], io_refused = {}\<rparr>, [0x6E])]))) = 2"
  by (simp add: eval_defs)

text \<open>
  C6 fails on the code for the same reason: started on the engine and the results directory
  that a first round leaves behind, a run over a file with two matches collects two
  matches, and after two rounds \<^verbatim>\<open>matches_found\<close> is 4.
\<close>

theorem matches_found_survives_into_next_run:
  "length (rr_matches (run_search
      (fst (main Map.empty
        [(\<lparr>io_walk = [\<lparr>de_name = map of_char ''a.txt'', de_path = ''db/a.txt'', de_getsize = Inr 7\<rparr>],
           io_fs = [(''db/a.txt'', Content ''foo foo'')],
           io_query = map of_char ''foo'', io_sched = [], io_refused = {}\<rparr>, [0x6E])]))
      (snd (main Map.empty
        [(\<lparr>io_walk = [\<lparr>de_name = map of_char ''a.txt'', de_path = ''db/a.txt'', de_getsize = Inr 7\<rparr>],
           io_fs = [(''db/a.txt'', Content ''foo foo'')],
           io_query = map of_char ''foo'', io_sched = [], io_refused = {}\<rparr>, [0x6E])]))
      \<lparr>io_walk = [\<lparr>de_name = map of_char ''a.txt'', de_path = ''db/a.txt'', de_getsize = Inr 7\<rparr>],
        io_fs = [(''db/a.txt'', Content ''foo foo'')],
        io_query = map of_char ''foo'', io_sched = [], io_refused = {}\<rparr>)) = 2 \<and>
   matches_found (stats (fst (main Map.empty
     [(\<lparr>io_walk = [\<lparr>de_name = map of_char ''a.txt'', de_path = ''db/a.txt'', de_getsize = Inr 7\<rparr>],
        io_fs = [(''db/a.txt'', Content ''foo foo'')],
        io_query = map of_char ''foo'', io_sched = [], io_refused = {}\<rparr>, [0x79]),
      (\<lparr>io_walk = [\<lparr>de_name = map of_char ''a.txt'', de_path = ''db/a.txt'', de_getsize = Inr 7\<rparr>],
        io_fs = [(''db/a.txt'', Content ''foo foo'')],
        io_query = map of_char ''foo'', io_sched = [], io_refused = {}\<rparr>, [0x6E])]))) = 4"
  by (simp add: eval_defs report_def)

text \<open>
  The scenario of the specification: two matches in \<^verbatim>\<open>a.txt\<close>, none in \<^verbatim>\<open>b.txt\<close>,
  \<^verbatim>\<open>c.txt\<close> unreadable, the futures completing in the order c, a, b.
\<close>

lemma spec_scenario:
  "stats (rr_engine (run_search init_engine Map.empty
     \<lparr>io_walk = [\<lparr>de_name = map of_char ''a.txt'', de_path = ''d/a.txt'', de_getsize = Inr 11\<rparr>,
                  \<lparr>de_name = map of_char ''b.txt'', de_path = ''d/b.txt'', de_getsize = Inr 12\<rparr>,
                  \<lparr>de_name = map of_char ''c.txt'', de_path = ''d/c.txt'', de_getsize = Inr 5\<rparr>],
       io_fs = [(''d/a.txt'', Content ''foo bar foo''), (''d/b.txt'', Content ''nothing here''),
                (''d/c.txt'', Raises ''Permission denied'')],
       io_query = map of_char ''foo'', io_sched = [2, 0], io_refused = {}\<rparr>)) =
   \<lparr>files_processed = 3, matches_found = 2, total_size = 28, errors = 1\<rparr>"
  by (simp add: eval_defs)

section \<open>Encoding and decoding agree\<close>

text \<open>
  The decoder reads back what the encoder writes, so on a window that is well-formed UTF-8
  the context is the text of the window itself.
\<close>

lemma of_char_char_of_small: "n < 256 \<Longrightarrow> of_char (char_of n) = (n :: nat)"
  by simp

lemma decode1:
  "(of_char b1 :: nat) < 0x80 \<Longrightarrow> utf8_decode (b1 # rest) = of_char b1 # utf8_decode rest"
  by simp

lemma decode2:
  assumes "(of_char b1 :: nat) = c1" "0xC2 \<le> c1" "c1 < 0xE0" "byte_in b2 0x80 0xBF"
  shows "utf8_decode (b1 # b2 # rest) = ((c1 - 0xC0) * 0x40 + low6 b2) # utf8_decode rest"
  using assms by simp

lemma decode3:
  assumes "(of_char b1 :: nat) = c1" "0xE0 \<le> c1" "c1 < 0xF0"
    "byte_in b2 (if c1 = 0xE0 then 0xA0 else 0x80) (if c1 = 0xED then 0x9F else 0xBF)"
    "byte_in b3 0x80 0xBF"
  shows "utf8_decode (b1 # b2 # b3 # rest) =
           ((c1 - 0xE0) * 0x1000 + low6 b2 * 0x40 + low6 b3) # utf8_decode rest"
  using assms by simp

lemma decode4:
  assumes "(of_char b1 :: nat) = c1" "0xF0 \<le> c1" "c1 < 0xF5"
    "byte_in b2 (if c1 = 0xF0 then 0x90 else 0x80) (if c1 = 0xF4 then 0x8F else 0xBF)"
    "byte_in b3 0x80 0xBF" "byte_in b4 0x80 0xBF"
  shows "utf8_decode (b1 # b2 # b3 # b4 # rest) =
           ((c1 - 0xF0) * 0x40000 + low6 b2 * 0x1000 + low6 b3 * 0x40 + low6 b4) # utf8_decode rest"
  using assms by simp

lemma mod64: "m < 64 \<Longrightarrow> (128 + m) mod 64 = (m :: nat)"
proof -
  assume small: "m < 64"
  have "(128 + m) mod 64 = (64 * 2 + m) mod 64" by simp
  also have "\<dots> = m mod 64" by (rule mod_mult_self4)
  also have "\<dots> = m" using small by simp
  finally show ?thesis .
qed

lemma cont_byte: "m < 0x40 \<Longrightarrow> byte_in (char_of (0x80 + m :: nat)) 0x80 0xBF \<and> low6 (char_of (0x80 + m)) = m"
  by (simp add: byte_in_def low6_def mod64)

lemma digits2: "(c :: nat) = c div 0x40 * 0x40 + c mod 0x40"
  by simp

lemma digits3: "(c :: nat) = c div 0x1000 * 0x1000 + c div 0x40 mod 0x40 * 0x40 + c mod 0x40"
proof -
  have "c div 0x40 div 0x40 = c div 0x1000" by (simp add: div_mult2_eq [symmetric])
  then have "c div 0x40 = c div 0x1000 * 0x40 + c div 0x40 mod 0x40"
    using div_mult_mod_eq [of "c div 0x40" "0x40"] by simp
  moreover have "c = c div 0x40 * 0x40 + c mod 0x40" by simp
  ultimately show ?thesis by linarith
qed

lemma digits4:
  "(c :: nat) = c div 0x40000 * 0x40000 + c div 0x1000 mod 0x40 * 0x1000
      + c div 0x40 mod 0x40 * 0x40 + c mod 0x40"
proof -
  have "c div 0x1000 div 0x40 = c div 0x40000" by (simp add: div_mult2_eq [symmetric])
  then have "c div 0x1000 = c div 0x40000 * 0x40 + c div 0x1000 mod 0x40"
    using div_mult_mod_eq [of "c div 0x1000" "0x40"] by simp
  with digits3 [of c] show ?thesis by linarith
qed

lemma decode_encode_cp:
  assumes "utf8_encode_cp c = Some x"
  shows "utf8_decode (x @ rest) = c # utf8_decode rest"
proof -
  define a4 where "a4 = c div 0x40000"
  define a3 where "a3 = c div 0x1000"
  define a2 where "a2 = c div 0x40"
  define m3 where "m3 = c div 0x1000 mod 0x40"
  define m2 where "m2 = c div 0x40 mod 0x40"
  define m1 where "m1 = c mod 0x40"
  have m: "m1 < 0x40" "m2 < 0x40" "m3 < 0x40" by (simp_all add: m1_def m2_def m3_def)
  have c2: "c = a2 * 0x40 + m1" unfolding a2_def m1_def by (rule digits2)
  have c3: "c = a3 * 0x1000 + m2 * 0x40 + m1" unfolding a3_def m2_def m1_def by (rule digits3)
  have c4: "c = a4 * 0x40000 + m3 * 0x1000 + m2 * 0x40 + m1"
    unfolding a4_def m3_def m2_def m1_def by (rule digits4)
  consider (a) "c < 0x80" | (b) "0x80 \<le> c" "c < 0x800" | (c) "0x800 \<le> c" "c < 0x10000"
    | (d) "0x10000 \<le> c" "c < 0x110000" | (e) "0x110000 \<le> c"
    by linarith
  then show ?thesis
  proof cases
    case a
    with assms have "x = [char_of c]" by (simp add: utf8_encode_cp_def)
    with a show ?thesis by simp
  next
    case b
    with assms have x: "x = [char_of (0xC0 + a2), char_of (0x80 + m1)]"
      by (simp add: utf8_encode_cp_def a2_def m1_def)
    from b c2 m have hi: "2 \<le> a2" "a2 < 0x20" by linarith+
    have b1: "of_char (char_of (0xC0 + a2)) = 0xC0 + a2" using hi by simp
    have "utf8_decode (char_of (0xC0 + a2) # char_of (0x80 + m1) # rest) =
        ((0xC0 + a2 - 0xC0) * 0x40 + low6 (char_of (0x80 + m1))) # utf8_decode rest"
      using hi cont_byte [OF m(1)] by (intro decode2 [OF b1]) simp_all
    also have "(0xC0 + a2 - 0xC0) * 0x40 + low6 (char_of (0x80 + m1)) = c"
      using cont_byte [OF m(1)] c2 by simp
    finally show ?thesis by (simp add: x)
  next
    case c
    with assms have ns: "\<not> (0xD800 \<le> c \<and> c \<le> 0xDFFF)"
      and x: "x = [char_of (0xE0 + a3), char_of (0x80 + m2), char_of (0x80 + m1)]"
      by (auto simp: utf8_encode_cp_def a3_def m2_def m1_def split: if_splits)
    from c c3 m have hi: "a3 < 0x10" by linarith
    have b1: "of_char (char_of (0xE0 + a3)) = 0xE0 + a3" using hi by simp
    have e0: "a3 = 0 \<Longrightarrow> 0x20 \<le> m2" using c c3 m by linarith
    have ed: "a3 = 0xD \<Longrightarrow> m2 < 0x20" using c c3 m ns by linarith
    have r2: "byte_in (char_of (0x80 + m2))
        (if 0xE0 + a3 = 0xE0 then 0xA0 else 0x80) (if 0xE0 + a3 = 0xED then 0x9F else 0xBF)"
      using e0 ed m by (auto simp: byte_in_def)
    have "utf8_decode (char_of (0xE0 + a3) # char_of (0x80 + m2) # char_of (0x80 + m1) # rest) =
        ((0xE0 + a3 - 0xE0) * 0x1000 + low6 (char_of (0x80 + m2)) * 0x40
          + low6 (char_of (0x80 + m1))) # utf8_decode rest"
      using hi cont_byte [OF m(1)] r2 by (intro decode3 [OF b1]) simp_all
    also have "(0xE0 + a3 - 0xE0) * 0x1000 + low6 (char_of (0x80 + m2)) * 0x40
        + low6 (char_of (0x80 + m1)) = c"
      using cont_byte [OF m(1)] cont_byte [OF m(2)] c3 by simp
    finally show ?thesis by (simp add: x)
  next
    case d
    with assms have x: "x = [char_of (0xF0 + a4), char_of (0x80 + m3), char_of (0x80 + m2),
        char_of (0x80 + m1)]"
      by (auto simp: utf8_encode_cp_def a4_def m3_def m2_def m1_def split: if_splits)
    from d c4 m have hi: "a4 < 5" by linarith
    have b1: "of_char (char_of (0xF0 + a4)) = 0xF0 + a4" using hi by simp
    have f0: "a4 = 0 \<Longrightarrow> 0x10 \<le> m3" using d c4 m by linarith
    have f4: "a4 = 4 \<Longrightarrow> m3 < 0x10" using d c4 m by linarith
    have r2: "byte_in (char_of (0x80 + m3))
        (if 0xF0 + a4 = 0xF0 then 0x90 else 0x80) (if 0xF0 + a4 = 0xF4 then 0x8F else 0xBF)"
      using f0 f4 m by (auto simp: byte_in_def)
    have "utf8_decode (char_of (0xF0 + a4) # char_of (0x80 + m3) # char_of (0x80 + m2) #
          char_of (0x80 + m1) # rest) =
        ((0xF0 + a4 - 0xF0) * 0x40000 + low6 (char_of (0x80 + m3)) * 0x1000
          + low6 (char_of (0x80 + m2)) * 0x40 + low6 (char_of (0x80 + m1))) # utf8_decode rest"
      using hi cont_byte [OF m(1)] cont_byte [OF m(2)] r2 by (intro decode4 [OF b1]) simp_all
    also have "(0xF0 + a4 - 0xF0) * 0x40000 + low6 (char_of (0x80 + m3)) * 0x1000
        + low6 (char_of (0x80 + m2)) * 0x40 + low6 (char_of (0x80 + m1)) = c"
      using cont_byte [OF m(1)] cont_byte [OF m(2)] cont_byte [OF m(3)] c4 by simp
    finally show ?thesis by (simp add: x)
  next
    case e
    with assms show ?thesis by (simp add: utf8_encode_cp_def)
  qed
qed

lemma decode_encode: "utf8_encode s = Some bs \<Longrightarrow> utf8_decode bs = s"
proof (induction s arbitrary: bs)
  case Nil
  then show ?case by simp
next
  case (Cons c s)
  then obtain x y where x: "utf8_encode_cp c = Some x" and y: "utf8_encode s = Some y"
    and bs: "bs = x @ y"
    by (auto split: option.splits)
  from decode_encode_cp [OF x, of y] Cons.IH [OF y] bs show ?case by simp
qed

lemma decode_append:
  "utf8_encode t = Some e \<Longrightarrow> utf8_decode (e @ rest) = t @ utf8_decode rest"
proof (induction t arbitrary: e)
  case Nil
  then show ?case by simp
next
  case (Cons c t)
  then obtain x y where x: "utf8_encode_cp c = Some x" and y: "utf8_encode t = Some y"
    and e: "e = x @ y"
    by (auto split: option.splits)
  from decode_encode_cp [OF x, of "y @ rest"] Cons.IH [OF y] e show ?case by simp
qed

lemma decode_stray:
  "byte_in b 0x80 0xC1 \<or> byte_in b 0xF5 0xFF
     \<Longrightarrow> utf8_decode (b # rest) = 0xFFFD # utf8_decode rest"
  by (auto simp: byte_in_def Let_def)

lemma decode_cut_lead: "byte_in b 0xC2 0xF4 \<Longrightarrow> utf8_decode [b] = [0xFFFD]"
  by (auto simp: byte_in_def Let_def)

lemma match_context_wellformed:
  "utf8_encode t = Some (py_slice mm (max 0 (int s - 50)) (int e + 50))
     \<Longrightarrow> match_context mm s e = strip t"
  by (simp add: match_context_def decode_encode)

section \<open>The context window\<close>

lemma py_slice_window:
  "py_slice mm (max 0 (int s - 50)) (int e + 50) = drop (s - 50) (take (e + 50) mm)"
proof -
  have lo: "nat (min (max 0 (int s - 50)) (int (length mm))) = min (s - 50) (length mm)"
    by arith
  have hi: "nat (min (int e + 50) (int (length mm))) = min (e + 50) (length mm)"
    by arith
  have "py_slice mm (max 0 (int s - 50)) (int e + 50) =
      drop (min (s - 50) (length mm)) (take (min (e + 50) (length mm)) mm)"
    unfolding py_slice_def Let_def using lo hi by simp
  also have "\<dots> = drop (s - 50) (take (e + 50) mm)"
    by (cases "s - 50 \<le> length mm") (simp_all add: min_def)
  finally show ?thesis .
qed

lemma window_parts:
  assumes "occurs_at pat mm s"
  shows "drop (s - 50) (take (s + length pat + 50) mm) =
           drop (s - 50) (take s mm) @ pat @ take 50 (drop (s + length pat) mm)"
proof -
  from assms have fit: "s + length pat \<le> length mm" and eq: "take (length pat) (drop s mm) = pat"
    by (simp_all add: occurs_at_def)
  have "take (s + (length pat + 50)) mm = take s mm @ take (length pat + 50) (drop s mm)"
    by (rule take_add)
  also have "take (length pat + 50) (drop s mm) =
      take (length pat) (drop s mm) @ take 50 (drop (length pat) (drop s mm))"
    by (rule take_add)
  finally have "take (s + length pat + 50) mm = take s mm @ pat @ take 50 (drop (s + length pat) mm)"
    by (simp add: eq add.commute add.assoc)
  moreover have "length (take s mm) = s" using fit by simp
  ultimately show ?thesis by simp
qed

lemma last_dropWhile: "dropWhile P xs \<noteq> [] \<Longrightarrow> last (dropWhile P xs) = last xs"
  by (induction xs) (auto split: if_splits)

lemma strip_trimmed:
  "strip s = [] \<or> (\<not> is_space (hd (strip s)) \<and> \<not> is_space (last (strip s)))"
proof (cases "strip s = []")
  case True
  then show ?thesis by simp
next
  case False
  define t where "t = dropWhile is_space s"
  define u where "u = dropWhile is_space (rev t)"
  have st: "strip s = rev u" by (simp add: strip_def t_def u_def)
  with False have u: "u \<noteq> []" by simp
  then have t: "t \<noteq> []" by (auto simp: u_def)
  from u have "\<not> is_space (hd u)" unfolding u_def by (rule hd_dropWhile)
  with u have l: "\<not> is_space (last (strip s))" by (simp add: st last_rev)
  from u have "last u = last (rev t)" unfolding u_def by (rule last_dropWhile)
  with t have "last u = hd t" by (simp add: last_rev)
  moreover from t have "\<not> is_space (hd t)" unfolding t_def by (rule hd_dropWhile)
  ultimately have "\<not> is_space (hd (strip s))" using u by (simp add: st hd_rev)
  with l show ?thesis by simp
qed

text \<open>
  C4. The context of a match is the window made of the up to 50 bytes before its start
  (fewer only when the file begins there), the matched bytes, and the up to 50 bytes after
  its end (fewer only when the file ends there), decoded and stripped: it is empty or
  neither starts nor ends with white space. A match at offset 0 has nothing before it in
  the window, a match that ends the file nothing after it. The decoding is lenient: a
  window that is the UTF-8 encoding of a text gives that text; a byte that can neither start
  nor continue a character, standing between two well-formed parts, gives U+FFFD between
  their texts; and a lead byte cut off by the end of the window gives U+FFFD after the text
  before it.
\<close>

theorem match_context_window:
  assumes content: "open_mmap fs (fi_path fi) = Content mm"
    and query: "query self = Some q" "q \<noteq> []" "utf8_encode q = Some pat"
    and run: "search_file self fs fi = (self', path, ms, err)"
    and m: "m \<in> set ms"
  shows "m_position m + length pat \<le> length mm \<and>
         m_context m =
           strip (utf8_decode (drop (m_position m - 50) (take (m_position m) mm) @ pat @
                               take 50 (drop (m_position m + length pat) mm))) \<and>
         length (drop (m_position m - 50) (take (m_position m) mm)) = min 50 (m_position m) \<and>
         length (take 50 (drop (m_position m + length pat) mm)) =
           min 50 (length mm - (m_position m + length pat)) \<and>
         (m_context m = [] \<or> (\<not> is_space (hd (m_context m)) \<and> \<not> is_space (last (m_context m)))) \<and>
         (\<forall>t. utf8_encode t =
                Some (drop (m_position m - 50) (take (m_position m) mm) @ pat @
                      take 50 (drop (m_position m + length pat) mm))
              \<longrightarrow> m_context m = strip t) \<and>
         (\<forall>t1 e1 b t2 e2.
            utf8_encode t1 = Some e1 \<and> utf8_encode t2 = Some e2 \<and>
            (byte_in b 0x80 0xC1 \<or> byte_in b 0xF5 0xFF) \<and>
            drop (m_position m - 50) (take (m_position m) mm) @ pat @
              take 50 (drop (m_position m + length pat) mm) = e1 @ b # e2
            \<longrightarrow> m_context m = strip (t1 @ 0xFFFD # t2)) \<and>
         (\<forall>t1 e1 b.
            utf8_encode t1 = Some e1 \<and> byte_in b 0xC2 0xF4 \<and>
            drop (m_position m - 50) (take (m_position m) mm) @ pat @
              take 50 (drop (m_position m + length pat) mm) = e1 @ [b]
            \<longrightarrow> m_context m = strip (t1 @ [0xFFFD]))"
proof -
  from query have ne: "pat \<noteq> []" by (simp add: utf8_encode_nonempty)
  from search_file_matches [of fs fi mm self q pat] content query(1,3) ne run
  have ms: "ms = map (\<lambda>s. \<lparr>m_file = fi_path fi,
      m_context = match_context mm s (s + length pat), m_position = s\<rparr>) (finditer pat mm 0)"
    by auto
  with m obtain s where s: "s \<in> set (finditer pat mm 0)"
    and ms': "m = \<lparr>m_file = fi_path fi, m_context = match_context mm s (s + length pat),
      m_position = s\<rparr>"
    by auto
  from finditer_occurs [OF ne s] have occ: "occurs_at pat mm s" by simp
  then have fit: "s + length pat \<le> length mm" by (simp add: occurs_at_def)
  define w where "w = drop (s - 50) (take s mm) @ pat @ take 50 (drop (s + length pat) mm)"
  have ctx: "m_context m = strip (utf8_decode w)"
    using window_parts [OF occ] py_slice_window [of mm s "s + length pat"]
    by (simp add: ms' match_context_def w_def)
  have before: "length (drop (s - 50) (take s mm)) = min 50 s"
    using fit by (auto simp: min_def)
  have after: "length (take 50 (drop (s + length pat) mm)) = min 50 (length mm - (s + length pat))"
    by simp
  have trimmed: "m_context m = [] \<or> (\<not> is_space (hd (m_context m)) \<and> \<not> is_space (last (m_context m)))"
    unfolding ms' match_context_def by (simp add: strip_trimmed)
  have wellformed: "\<forall>t. utf8_encode t = Some w \<longrightarrow> m_context m = strip t"
    by (simp add: ctx decode_encode)
  have stray: "\<forall>t1 e1 b t2 e2.
      utf8_encode t1 = Some e1 \<and> utf8_encode t2 = Some e2 \<and>
      (byte_in b 0x80 0xC1 \<or> byte_in b 0xF5 0xFF) \<and> w = e1 @ b # e2
      \<longrightarrow> m_context m = strip (t1 @ 0xFFFD # t2)"
  proof (intro allI impI)
    fix t1 e1 b t2 e2
    assume a: "utf8_encode t1 = Some e1 \<and> utf8_encode t2 = Some e2 \<and>
      (byte_in b 0x80 0xC1 \<or> byte_in b 0xF5 0xFF) \<and> w = e1 @ b # e2"
    then have "utf8_decode w = t1 @ utf8_decode (b # e2)"
      using decode_append [of t1 e1 "b # e2"] by (simp del: utf8_decode.simps)
    also from a have "utf8_decode (b # e2) = 0xFFFD # utf8_decode e2" by (intro decode_stray) simp
    also from a have "utf8_decode e2 = t2" by (simp add: decode_encode)
    finally show "m_context m = strip (t1 @ 0xFFFD # t2)" by (simp add: ctx)
  qed
  have cut: "\<forall>t1 e1 b. utf8_encode t1 = Some e1 \<and> byte_in b 0xC2 0xF4 \<and> w = e1 @ [b]
      \<longrightarrow> m_context m = strip (t1 @ [0xFFFD])"
  proof (intro allI impI)
    fix t1 e1 b
    assume a: "utf8_encode t1 = Some e1 \<and> byte_in b 0xC2 0xF4 \<and> w = e1 @ [b]"
    then have "utf8_decode w = t1 @ utf8_decode [b]"
      using decode_append [of t1 e1 "[b]"] by (simp del: utf8_decode.simps)
    also from a have "utf8_decode [b] = [0xFFFD]" by (intro decode_cut_lead) simp
    finally show "m_context m = strip (t1 @ [0xFFFD])" by (simp add: ctx)
  qed
  have pos: "m_position m = s" by (simp add: ms')
  from fit ctx before after trimmed wellformed stray cut show ?thesis
    unfolding pos w_def by blast
qed

theorem match_context_window_witness:
  "open_mmap [(''a.txt'', Content (''foo'' @ [CHR 0xC3, CHR 0xA9, CHR 0xFF, CHR '' '']))]
     (fi_path \<lparr>fi_path = ''a.txt'', fi_size = 7\<rparr>)
     = Content (''foo'' @ [CHR 0xC3, CHR 0xA9, CHR 0xFF, CHR '' '']) \<and>
   query (init_engine\<lparr>query := Some (map of_char ''foo'')\<rparr>) = Some (map of_char ''foo'') \<and>
   map of_char ''foo'' \<noteq> ([] :: nat list) \<and>
   utf8_encode (map of_char ''foo'') = Some ''foo'' \<and>
   search_file (init_engine\<lparr>query := Some (map of_char ''foo'')\<rparr>)
     [(''a.txt'', Content (''foo'' @ [CHR 0xC3, CHR 0xA9, CHR 0xFF, CHR '' '']))]
     \<lparr>fi_path = ''a.txt'', fi_size = 7\<rparr> =
     (init_engine\<lparr>query := Some (map of_char ''foo'')\<rparr>, ''a.txt'',
      [\<lparr>m_file = ''a.txt'', m_context = [0x66, 0x6F, 0x6F, 0xE9, 0xFFFD], m_position = 0\<rparr>], []) \<and>
   m_context \<lparr>m_file = ''a.txt'', m_context = [0x66, 0x6F, 0x6F, 0xE9, 0xFFFD], m_position = 0\<rparr> =
     strip (utf8_decode
       (drop (m_position \<lparr>m_file = ''a.txt'', m_context = [0x66, 0x6F, 0x6F, 0xE9, 0xFFFD],
                          m_position = 0\<rparr> - 50)
          (take (m_position \<lparr>m_file = ''a.txt'', m_context = [0x66, 0x6F, 0x6F, 0xE9, 0xFFFD],
                             m_position = 0\<rparr>)
             (''foo'' @ [CHR 0xC3, CHR 0xA9, CHR 0xFF, CHR '' ''])) @
        ''foo'' @
        take 50 (drop (m_position \<lparr>m_file = ''a.txt'', m_context = [0x66, 0x6F, 0x6F, 0xE9, 0xFFFD],
                                   m_position = 0\<rparr> + length ''foo'')
                   (''foo'' @ [CHR 0xC3, CHR 0xA9, CHR 0xFF, CHR '' ''])))) \<and>
   utf8_encode [0x66, 0x6F, 0x6F, 0xE9] = Some (''foo'' @ [CHR 0xC3, CHR 0xA9]) \<and>
   utf8_encode [0x20] = Some '' '' \<and>
   byte_in (CHR 0xFF) 0xF5 0xFF \<and>
   [0x66, 0x6F, 0x6F, 0xE9, 0xFFFD] = strip ([0x66, 0x6F, 0x6F, 0xE9] @ 0xFFFD # [0x20])"
proof -
  let ?mm = "''foo'' @ [CHR 0xC3, CHR 0xA9, CHR 0xFF, CHR '' '']"
  let ?m = "\<lparr>m_file = ''a.txt'', m_context = [0x66, 0x6F, 0x6F, 0xE9, 0xFFFD], m_position = 0\<rparr>"
  have h1: "open_mmap [(''a.txt'', Content ?mm)] (fi_path \<lparr>fi_path = ''a.txt'', fi_size = 7\<rparr>)
      = Content ?mm"
    by (simp add: open_mmap_def)
  have h2: "query (init_engine\<lparr>query := Some (map of_char ''foo'')\<rparr>) = Some (map of_char ''foo'')"
    by simp
  have h3: "map of_char ''foo'' \<noteq> ([] :: nat list)" by simp
  have h4: "utf8_encode (map of_char ''foo'') = Some ''foo''"
    by (simp add: utf8_encode_cp_def char_eval)
  have h5: "search_file (init_engine\<lparr>query := Some (map of_char ''foo'')\<rparr>)
      [(''a.txt'', Content ?mm)] \<lparr>fi_path = ''a.txt'', fi_size = 7\<rparr> =
      (init_engine\<lparr>query := Some (map of_char ''foo'')\<rparr>, ''a.txt'', [?m], [])"
    by (simp add: eval_defs byte_in_def low6_def)
  have h6: "?m \<in> set [?m]" by simp
  have e1: "utf8_encode [0x66, 0x6F, 0x6F, 0xE9] = Some (''foo'' @ [CHR 0xC3, CHR 0xA9])"
    by (simp add: utf8_encode_cp_def char_eval)
  have e2: "utf8_encode [0x20] = Some '' ''"
    by (simp add: utf8_encode_cp_def char_eval)
  have b: "byte_in (CHR 0xFF) 0xF5 0xFF" by (simp add: byte_in_def)
  have w: "drop (m_position ?m - 50) (take (m_position ?m) ?mm) @ ''foo'' @
      take 50 (drop (m_position ?m + length ''foo'') ?mm)
      = (''foo'' @ [CHR 0xC3, CHR 0xA9]) @ CHR 0xFF # '' ''"
    by simp
  note inst = match_context_window [OF h1 h2 h3 h4 h5 h6]
  from inst have c2: "m_context ?m = strip (utf8_decode
      (drop (m_position ?m - 50) (take (m_position ?m) ?mm) @ ''foo'' @
       take 50 (drop (m_position ?m + length ''foo'') ?mm)))"
    by blast
  from inst e1 e2 b w have "m_context ?m = strip ([0x66, 0x6F, 0x6F, 0xE9] @ 0xFFFD # [0x20])"
    by blast
  then have c7: "[0x66, 0x6F, 0x6F, 0xE9, 0xFFFD] = strip ([0x66, 0x6F, 0x6F, 0xE9] @ 0xFFFD # [0x20])"
    by simp
  from h1 h2 h3 h4 h5 c2 e1 e2 b c7 show ?thesis by blast
qed

section \<open>The name of the results file\<close>




















end
